theory Spec2Isabelle
  imports Complex_Main
begin

section \<open>Trees, tables, ranges and tasks\<close>

text \<open>
  The queue of \<^verbatim>\<open>distributed_dualtree_task_queue.h\<close> is a class template: the tree,
  the table, the task, the priority queue and the table exchange are template parameters
  or headers that are not part of the sources at hand. They are modelled here by what the
  queue reads of them.

  A tree node is a leaf or has a left and a right child; it carries a bound and the number
  of points below it. In the source \<^verbatim>\<open>left()\<close> and \<^verbatim>\<open>right()\<close> of a leaf are null
  pointers.
\<close>

datatype 'b tree =
    is_leaf: Leaf (bound: 'b) (count: int)
  | Node (bound: 'b) (count: int) (left: "'b tree") (right: "'b tree")

text \<open>
  Modelled from the spec: \<^verbatim>\<open>core::math::Range\<close> (core/math/range.h) is missing; it is
  the interval \<open>[lo, hi]\<close> with \<^verbatim>\<open>mid()\<close> its midpoint. The doubles of the source are
  real numbers here.
\<close>

record Range =
  lo :: real
  hi :: real

definition mid :: "Range \<Rightarrow> real" where
  "mid r = (lo r + hi r) / 2"

text \<open>
  Modelled from the spec: the bound type and its \<^verbatim>\<open>RangeDistanceSq\<close> are missing. The
  metric argument of the queue's operations is only ever handed on to
  \<^verbatim>\<open>RangeDistanceSq\<close>, so a metric is taken to be the function that gives the range of
  squared distances between two bounds.
\<close>

type_synonym 'b MetricType = "'b \<Rightarrow> 'b \<Rightarrow> Range"

definition RangeDistanceSq :: "'b \<Rightarrow> 'b MetricType \<Rightarrow> 'b \<Rightarrow> Range" where
  "RangeDistanceSq this_bound metric_in other_bound = metric_in this_bound other_bound"

datatype 'b TableType = Table (table_tree: "'b tree")

text \<open>
  Modelled from the spec: \<^verbatim>\<open>TableType::get_frontier_nodes\<close> is missing. It yields the
  frontier of the table's tree at a size cap: going down from the root, the first nodes
  that are leaves or hold no more points than the cap. The result replaces the contents
  of the vector it is given.
\<close>

fun frontier :: "int \<Rightarrow> 'b tree \<Rightarrow> 'b tree list" where
  "frontier cap (Leaf b c) = [Leaf b c]"
| "frontier cap (Node b c l r) =
     (if c \<le> cap then [Node b c l r] else frontier cap l @ frontier cap r)"

definition get_frontier_nodes :: "'b TableType \<Rightarrow> int \<Rightarrow> 'b tree list" where
  "get_frontier_nodes tbl max_subtree_size = frontier max_subtree_size (table_tree tbl)"

text \<open>
  A task is what the constructor \<^verbatim>\<open>TaskType(query node, reference table, reference node,
  cache id, priority)\<close> is given.
\<close>

record 'b TaskType =
  query_start_node :: "'b tree"
  reference_table :: "'b TableType"
  reference_start_node :: "'b tree"
  cache_id :: int
  priority :: real

section \<open>The priority queue of one query subtree\<close>

text \<open>
  Modelled from the spec: \<^verbatim>\<open>TaskPriorityQueueType\<close> is a template parameter. It is a
  max-priority queue on the task's priority in which equal priorities leave in the order
  they came. The model keeps the tasks in insertion order; the top is the first task of
  greatest priority. \<^verbatim>\<open>top()\<close> and \<^verbatim>\<open>pop()\<close> of an empty queue are undefined in C++, and
  the queue never calls them there.
\<close>

type_synonym 'b TaskPriorityQueueType = "'b TaskType list"

definition pq_size :: "'b TaskPriorityQueueType \<Rightarrow> nat" where
  "pq_size pq = length pq"

definition pq_push :: "'b TaskType \<Rightarrow> 'b TaskPriorityQueueType \<Rightarrow> 'b TaskPriorityQueueType" where
  "pq_push t pq = pq @ [t]"

fun pq_top :: "'b TaskPriorityQueueType \<Rightarrow> 'b TaskType" where
  "pq_top (t # pq) = foldl (\<lambda>best u. if priority best < priority u then u else best) t pq"

definition pq_pop :: "'b TaskPriorityQueueType \<Rightarrow> 'b TaskPriorityQueueType" where
  "pq_pop pq = (case pq of [] \<Rightarrow> [] | _ # _ \<Rightarrow> remove1 (pq_top pq) pq)"

text \<open>The order in which repeated \<^verbatim>\<open>top()\<close> and \<^verbatim>\<open>pop()\<close> empty a queue.\<close>

primrec pq_drain_n :: "nat \<Rightarrow> 'b TaskPriorityQueueType \<Rightarrow> 'b TaskType list" where
  "pq_drain_n 0 pq = []"
| "pq_drain_n (Suc n) pq =
     (case pq of [] \<Rightarrow> [] | _ # _ \<Rightarrow> pq_top pq # pq_drain_n n (pq_pop pq))"

definition pq_drain :: "'b TaskPriorityQueueType \<Rightarrow> 'b TaskType list" where
  "pq_drain pq = pq_drain_n (length pq) pq"

section \<open>The queue\<close>

text \<open>
  The members of \<^verbatim>\<open>DistributedDualtreeTaskQueue\<close>. The pointer \<^verbatim>\<open>table_exchange_\<close> is
  \<open>None\<close> when null and otherwise the address of the exchange. The counter is a C++
  \<^verbatim>\<open>int\<close>; it is an unbounded integer here.
\<close>

type_synonym exchange_ref = nat

record 'b queue =
  local_query_subtrees :: "'b tree list"
  local_query_subtree_locks :: "bool list"
  tasks :: "'b TaskPriorityQueueType list"
  split_subtree_after_unlocking :: bool
  table_exchange :: "exchange_ref option"
  num_remaining_tasks :: int

text \<open>
  Indexing a vector out of its range and calling through a null pointer are undefined in
  C++; in the model they are faults.
\<close>

datatype fault = OutOfRange | NullPointer

definition in_range :: "int \<Rightarrow> 'a list \<Rightarrow> bool" where
  "in_range i xs \<longleftrightarrow> 0 \<le> i \<and> i < int (length xs)"

text \<open>\<^verbatim>\<open>resize(n)\<close> of a vector or deque: cut to \<open>n\<close> elements, or filled up with default values.\<close>

definition resize :: "nat \<Rightarrow> 'a \<Rightarrow> 'a list \<Rightarrow> 'a list" where
  "resize n d xs = take n xs @ replicate (n - length xs) d"

text \<open>
  Modelled from the spec: \<^verbatim>\<open>TableExchange::LockCache\<close> (core/parallel/table_exchange.h) is
  missing. A call through the queue's pointer is recorded as the pair of its arguments.
\<close>

type_synonym lock_call = "int \<times> int"

definition LockCache :: "exchange_ref option \<Rightarrow> int \<Rightarrow> int \<Rightarrow> fault + lock_call" where
  "LockCache exchange cid n =
     (case exchange of None \<Rightarrow> Inl NullPointer | Some x \<Rightarrow> Inr (cid, n))"

definition DistributedDualtreeTaskQueue :: "'b queue" where
  "DistributedDualtreeTaskQueue =
     \<lparr>local_query_subtrees = [], local_query_subtree_locks = [], tasks = [],
      split_subtree_after_unlocking = False, table_exchange = None,
      num_remaining_tasks = 0\<rparr>"

definition set_split_subtree_flag :: "'b queue \<Rightarrow> 'b queue" where
  "set_split_subtree_flag q = q\<lparr>split_subtree_after_unlocking := True\<rparr>"

definition is_empty :: "'b queue \<Rightarrow> bool" where
  "is_empty q \<longleftrightarrow> num_remaining_tasks q = 0"

definition size_q :: "'b queue \<Rightarrow> int" where
  "size_q q = int (length (local_query_subtrees q))"

definition Init :: "'b TableType \<Rightarrow> int \<Rightarrow> exchange_ref \<Rightarrow> 'b queue \<Rightarrow> 'b queue" where
  "Init local_query_table max_query_subtree_size table_exchange_in q =
     (let subtrees = get_frontier_nodes local_query_table max_query_subtree_size;
          n = length subtrees;
          locks = resize n False (local_query_subtree_locks q);
          tsks = resize n [] (tasks q);
          locks' = fold (\<lambda>i l. l[i := False]) [0..<n] locks
      in q\<lparr>local_query_subtrees := subtrees,
            local_query_subtree_locks := locks',
            tasks := tsks,
            split_subtree_after_unlocking := False,
            table_exchange := Some table_exchange_in\<rparr>)"

text \<open>
  \<^verbatim>\<open>PushTask\<close>: the reference table, node and cache id come as a tuple. The task's priority
  is the negated midpoint of the squared distance range between the bound of the query
  subtree of the slot and the bound of the reference node.
\<close>

definition new_task ::
  "'b MetricType \<Rightarrow> 'b tree \<Rightarrow> 'b TableType \<times> 'b tree \<times> int \<Rightarrow> 'b TaskType" where
  "new_task metric_in query_node reference_table_node_pair =
     (let squared_distance_range =
            RangeDistanceSq (bound query_node) metric_in
              (bound (fst (snd reference_table_node_pair)))
      in \<lparr>query_start_node = query_node,
          reference_table = fst reference_table_node_pair,
          reference_start_node = fst (snd reference_table_node_pair),
          cache_id = snd (snd reference_table_node_pair),
          priority = - mid squared_distance_range\<rparr>)"

definition PushTask ::
  "'b MetricType \<Rightarrow> int \<Rightarrow> 'b TableType \<times> 'b tree \<times> int \<Rightarrow> 'b queue \<Rightarrow> fault + 'b queue" where
  "PushTask metric_in push_index reference_table_node_pair q =
     (if \<not> in_range push_index (local_query_subtrees q) then Inl OutOfRange
      else if \<not> in_range push_index (tasks q) then Inl OutOfRange
      else Inr (q\<lparr>tasks := (tasks q)[nat push_index :=
                     pq_push (new_task metric_in (local_query_subtrees q ! nat push_index)
                                reference_table_node_pair)
                       (tasks q ! nat push_index)],
                  num_remaining_tasks := num_remaining_tasks q + 1\<rparr>))"

text \<open>
  \<^verbatim>\<open>DequeueTask\<close> writes its result through the pointer \<^verbatim>\<open>task_out\<close>: the model takes the
  pair the pointer refers to and returns it as it is after the call. The task of a
  default-constructed pair is \<open>None\<close>.
\<close>

type_synonym 'b task_pair = "'b TaskType option \<times> int"

definition DequeueTask ::
  "int \<Rightarrow> 'b task_pair \<Rightarrow> bool \<Rightarrow> 'b queue \<Rightarrow> fault + 'b queue \<times> 'b task_pair" where
  "DequeueTask probe_index task_out lock_query_subtree_in q =
     (if \<not> in_range probe_index (tasks q) then Inl OutOfRange
      else if 0 < pq_size (tasks q ! nat probe_index) then
        (if \<not> in_range probe_index (local_query_subtree_locks q) then Inl OutOfRange
         else if \<not> local_query_subtree_locks q ! nat probe_index then
           Inr (q\<lparr>tasks := (tasks q)[nat probe_index := pq_pop (tasks q ! nat probe_index)],
                  local_query_subtree_locks :=
                    (local_query_subtree_locks q)[nat probe_index := lock_query_subtree_in],
                  num_remaining_tasks := num_remaining_tasks q - 1\<rparr>,
                (Some (pq_top (tasks q ! nat probe_index)), probe_index))
         else Inr (q, task_out))
      else Inr (q, task_out))"

text \<open>
  The first loop of \<^verbatim>\<open>split_subtree_\<close>: while the slot has tasks, dequeue one without
  locking into a fresh pair and keep its task. When the slot is locked \<^verbatim>\<open>DequeueTask\<close>
  takes nothing and the loop does not end: the result is \<open>None\<close>.
\<close>

partial_function (option) drain_tasks ::
  "int \<Rightarrow> 'b queue \<Rightarrow> 'b TaskType option list \<Rightarrow>
     (fault + 'b queue \<times> 'b TaskType option list) option" where
  "drain_tasks subtree_index q prev_tasks =
     (if \<not> in_range subtree_index (tasks q) then Some (Inl OutOfRange)
      else if 0 < pq_size (tasks q ! nat subtree_index) then
        (case DequeueTask subtree_index (None, 0) False q of
           Inl e \<Rightarrow> Some (Inl e)
         | Inr (q', task_pair) \<Rightarrow> drain_tasks subtree_index q' (prev_tasks @ [fst task_pair]))
      else Some (Inr (q, prev_tasks)))"

declare drain_tasks.simps [code]

text \<open>
  The body of the second loop of \<^verbatim>\<open>split_subtree_\<close> for one of the tasks taken out: a
  leaf reference node is pushed to the slot and to the last slot and its cache entry is
  locked once more; for an internal reference node both children are pushed to both
  slots and the cache entry is locked three more times. The reference node of a
  default-constructed task is a null pointer.
\<close>

definition bind_fault :: "fault + 'a \<Rightarrow> ('a \<Rightarrow> fault + 'c) \<Rightarrow> fault + 'c" where
  "bind_fault r f = (case r of Inl e \<Rightarrow> Inl e | Inr x \<Rightarrow> f x)"

definition split_task ::
  "'b MetricType \<Rightarrow> int \<Rightarrow> 'b TaskType option \<Rightarrow> 'b queue \<Rightarrow> fault + 'b queue \<times> lock_call" where
  "split_task metric_in subtree_index prev_task q =
     (case prev_task of
        None \<Rightarrow> Inl NullPointer
      | Some t \<Rightarrow>
          if is_leaf (reference_start_node t) then
            (let reference_table_node_pair =
                   (reference_table t, reference_start_node t, cache_id t)
             in bind_fault (PushTask metric_in subtree_index reference_table_node_pair q)
                  (\<lambda>q. bind_fault
                          (PushTask metric_in (int (length (local_query_subtrees q)) - 1)
                             reference_table_node_pair q)
                  (\<lambda>q. bind_fault (LockCache (table_exchange q) (cache_id t) 1)
                  (\<lambda>call. Inr (q, call)))))
          else
            (let reference_left_child = left (reference_start_node t);
                 reference_right_child = right (reference_start_node t);
                 reference_table_left_node_pair =
                   (reference_table t, reference_left_child, cache_id t);
                 reference_table_right_node_pair =
                   (reference_table t, reference_right_child, cache_id t)
             in bind_fault (PushTask metric_in subtree_index reference_table_left_node_pair q)
                  (\<lambda>q. bind_fault
                          (PushTask metric_in subtree_index reference_table_right_node_pair q)
                  (\<lambda>q. bind_fault
                          (PushTask metric_in (int (length (local_query_subtrees q)) - 1)
                             reference_table_left_node_pair q)
                  (\<lambda>q. bind_fault
                          (PushTask metric_in (int (length (local_query_subtrees q)) - 1)
                             reference_table_right_node_pair q)
                  (\<lambda>q. bind_fault (LockCache (table_exchange q) (cache_id t) 3)
                  (\<lambda>call. Inr (q, call))))))))"

fun redistribute ::
  "'b MetricType \<Rightarrow> int \<Rightarrow> 'b TaskType option list \<Rightarrow> 'b queue \<Rightarrow> lock_call list \<Rightarrow>
     fault + 'b queue \<times> lock_call list" where
  "redistribute metric_in subtree_index [] q calls = Inr (q, calls)"
| "redistribute metric_in subtree_index (prev_task # prev_tasks) q calls =
     (case split_task metric_in subtree_index prev_task q of
        Inl e \<Rightarrow> Inl e
      | Inr (q', call) \<Rightarrow> redistribute metric_in subtree_index prev_tasks q' (calls @ [call]))"

text \<open>
  \<^verbatim>\<open>split_subtree_\<close>: the slot gets the left child, the right child is appended with a free
  lock, the slot's tasks are taken out, one empty priority queue is appended, and the
  tasks are pushed again for both children. The result carries the \<^verbatim>\<open>LockCache\<close> calls
  made, in order. The children of a leaf are null in the source; its only caller never
  passes a leaf slot, and the model faults there at once.
\<close>

definition split_subtree ::
  "'b MetricType \<Rightarrow> int \<Rightarrow> 'b queue \<Rightarrow> (fault + 'b queue \<times> lock_call list) option" where
  "split_subtree metric_in subtree_index q =
     (if \<not> in_range subtree_index (local_query_subtrees q) then Some (Inl OutOfRange)
      else if is_leaf (local_query_subtrees q ! nat subtree_index) then Some (Inl NullPointer)
      else
        (let left_child = left (local_query_subtrees q ! nat subtree_index);
             right_child = right (local_query_subtrees q ! nat subtree_index);
             q1 = q\<lparr>local_query_subtrees :=
                      (local_query_subtrees q)[nat subtree_index := left_child] @ [right_child],
                    local_query_subtree_locks := local_query_subtree_locks q @ [False]\<rparr>
         in case drain_tasks subtree_index q1 [] of
              None \<Rightarrow> None
            | Some (Inl e) \<Rightarrow> Some (Inl e)
            | Some (Inr (q2, prev_tasks)) \<Rightarrow>
                Some (redistribute metric_in subtree_index prev_tasks
                        (q2\<lparr>tasks := resize (length (tasks q2) + 1) [] (tasks q2)\<rparr>) [])))"

text \<open>
  The search of \<^verbatim>\<open>UnlockQuerySubtree\<close> for a subtree to split: one step of the loop on the
  pair of \<^verbatim>\<open>split_index_query_size\<close> and \<^verbatim>\<open>split_index\<close>, and the loop over the slots.
\<close>

definition scan_slot :: "'b queue \<Rightarrow> nat \<Rightarrow> int \<times> int \<Rightarrow> fault + int \<times> int" where
  "scan_slot q i st =
     (if \<not> i < length (local_query_subtree_locks q) then Inl OutOfRange
      else if local_query_subtree_locks q ! i then Inr st
      else if is_leaf (local_query_subtrees q ! i) then Inr st
      else if \<not> i < length (tasks q) then Inl OutOfRange
      else if 0 < pq_size (tasks q ! i) \<and> fst st < count (local_query_subtrees q ! i)
        then Inr (count (local_query_subtrees q ! i), int i)
      else Inr st)"

fun scan_slots :: "'b queue \<Rightarrow> nat list \<Rightarrow> int \<times> int \<Rightarrow> fault + int \<times> int" where
  "scan_slots q [] st = Inr st"
| "scan_slots q (i # slots) st =
     (case scan_slot q i st of Inl e \<Rightarrow> Inl e | Inr st' \<Rightarrow> scan_slots q slots st')"

definition UnlockQuerySubtree ::
  "'b MetricType \<Rightarrow> int \<Rightarrow> 'b queue \<Rightarrow> (fault + 'b queue \<times> lock_call list) option" where
  "UnlockQuerySubtree metric_in subtree_index q =
     (if \<not> in_range subtree_index (local_query_subtree_locks q) then Some (Inl OutOfRange)
      else
        (let q1 = q\<lparr>local_query_subtree_locks :=
                      (local_query_subtree_locks q)[nat subtree_index := False]\<rparr>
         in if split_subtree_after_unlocking q1 then
              (case scan_slots q1 [0..<length (local_query_subtrees q1)] (0, - 1) of
                 Inl e \<Rightarrow> Some (Inl e)
               | Inr (split_index_query_size, split_index) \<Rightarrow>
                   if 0 \<le> split_index then
                     (case split_subtree metric_in split_index q1 of
                        None \<Rightarrow> None
                      | Some (Inl e) \<Rightarrow> Some (Inl e)
                      | Some (Inr (q2, calls)) \<Rightarrow>
                          Some (Inr (q2\<lparr>split_subtree_after_unlocking := False\<rparr>, calls)))
                   else Some (Inr (q1\<lparr>split_subtree_after_unlocking := False\<rparr>, [])))
            else Some (Inr (q1, []))))"

section \<open>Sequences of operations\<close>

text \<open>
  The operations a caller has on a constructed queue, and what one of them and a sequence
  of them do to the queue, with the \<^verbatim>\<open>LockCache\<close> calls they make. A sequence is valid
  when no operation of it faults and each returns.
\<close>

datatype 'b operation =
    Initialize "'b TableType" int exchange_ref
  | Push "'b MetricType" int "'b TableType \<times> 'b tree \<times> int"
  | Dequeue int "'b task_pair" bool
  | Unlock "'b MetricType" int
  | RequestSplit

fun exec :: "'b operation \<Rightarrow> 'b queue \<Rightarrow> (fault + 'b queue \<times> lock_call list) option" where
  "exec (Initialize local_query_table max_query_subtree_size table_exchange_in) q =
     Some (Inr (Init local_query_table max_query_subtree_size table_exchange_in q, []))"
| "exec (Push metric_in push_index pair) q =
     (case PushTask metric_in push_index pair q of
        Inl e \<Rightarrow> Some (Inl e) | Inr q' \<Rightarrow> Some (Inr (q', [])))"
| "exec (Dequeue probe_index task_out lock_in) q =
     (case DequeueTask probe_index task_out lock_in q of
        Inl e \<Rightarrow> Some (Inl e) | Inr (q', out) \<Rightarrow> Some (Inr (q', [])))"
| "exec (Unlock metric_in subtree_index) q = UnlockQuerySubtree metric_in subtree_index q"
| "exec RequestSplit q = Some (Inr (set_split_subtree_flag q, []))"

fun run :: "'b operation list \<Rightarrow> 'b queue \<Rightarrow> (fault + 'b queue \<times> lock_call list) option" where
  "run [] q = Some (Inr (q, []))"
| "run (opn # ops) q =
     (case exec opn q of
        None \<Rightarrow> None
      | Some (Inl e) \<Rightarrow> Some (Inl e)
      | Some (Inr (q', calls)) \<Rightarrow>
          (case run ops q' of
             None \<Rightarrow> None
           | Some (Inl e) \<Rightarrow> Some (Inl e)
           | Some (Inr (q'', calls')) \<Rightarrow> Some (Inr (q'', calls @ calls'))))"

section \<open>Notions the properties are stated with\<close>

text \<open>
  What a split makes of one task it takes out, for one of the two children of the query
  subtree, and how often it locks the task's cache entry.
\<close>

definition replacement_tasks :: "'b MetricType \<Rightarrow> 'b tree \<Rightarrow> 'b TaskType \<Rightarrow> 'b TaskType list" where
  "replacement_tasks metric_in query_node t =
     (if is_leaf (reference_start_node t) then
        [new_task metric_in query_node (reference_table t, reference_start_node t, cache_id t)]
      else
        [new_task metric_in query_node
           (reference_table t, left (reference_start_node t), cache_id t),
         new_task metric_in query_node
           (reference_table t, right (reference_start_node t), cache_id t)])"

definition lock_count :: "'b TaskType \<Rightarrow> int" where
  "lock_count t = (if is_leaf (reference_start_node t) then 1 else 3)"

definition pending :: "'b queue \<Rightarrow> int" where
  "pending q = (\<Sum>pq \<leftarrow> tasks q. int (pq_size pq))"

definition aligned :: "'b queue \<Rightarrow> bool" where
  "aligned q \<longleftrightarrow>
     length (local_query_subtree_locks q) = length (local_query_subtrees q) \<and>
     length (tasks q) = length (local_query_subtrees q)"

definition eligible :: "'b queue \<Rightarrow> nat \<Rightarrow> bool" where
  "eligible q k \<longleftrightarrow>
     k < length (local_query_subtrees q) \<and> \<not> local_query_subtree_locks q ! k \<and>
     \<not> is_leaf (local_query_subtrees q ! k) \<and> 0 < pq_size (tasks q ! k)"

text \<open>
  Slot \<open>k\<close> is the one a split request picks: it is eligible, no eligible slot holds
  more points, and every eligible slot before it holds fewer.
\<close>

definition chosen :: "'b queue \<Rightarrow> nat \<Rightarrow> bool" where
  "chosen q k \<longleftrightarrow>
     eligible q k \<and>
     list_all (\<lambda>j. eligible q j \<longrightarrow>
                 count (local_query_subtrees q ! j) \<le> count (local_query_subtrees q ! k))
       [0..<length (local_query_subtrees q)] \<and>
     list_all (\<lambda>j. eligible q j \<longrightarrow>
                 count (local_query_subtrees q ! j) < count (local_query_subtrees q ! k))
       [0..<k]"

text \<open>The queue with the lock of slot \<open>i\<close> released, the first step of an unlock.\<close>

definition released :: "nat \<Rightarrow> 'b queue \<Rightarrow> 'b queue" where
  "released i q =
     q\<lparr>local_query_subtree_locks := (local_query_subtree_locks q)[i := False]\<rparr>"

text \<open>
  The queue after slot \<open>k\<close> has been split and the \<^verbatim>\<open>LockCache\<close> calls of the split, in
  closed form: the tasks of the slot in the order the priority queue gives them up, each
  replaced for the left child in slot \<open>k\<close> and for the right child in the new last slot.
\<close>

definition split_state :: "'b MetricType \<Rightarrow> nat \<Rightarrow> 'b queue \<Rightarrow> 'b queue" where
  "split_state metric_in k q =
     q\<lparr>local_query_subtrees :=
         (local_query_subtrees q)[k := left (local_query_subtrees q ! k)] @
         [right (local_query_subtrees q ! k)],
       local_query_subtree_locks := local_query_subtree_locks q @ [False],
       tasks :=
         (tasks q)[k := concat (map (replacement_tasks metric_in
                      (left (local_query_subtrees q ! k))) (pq_drain (tasks q ! k)))] @
         [concat (map (replacement_tasks metric_in
            (right (local_query_subtrees q ! k))) (pq_drain (tasks q ! k)))],
       num_remaining_tasks :=
         num_remaining_tasks q + (\<Sum>t\<leftarrow>pq_drain (tasks q ! k). lock_count t)\<rparr>"

definition split_calls :: "nat \<Rightarrow> 'b queue \<Rightarrow> lock_call list" where
  "split_calls k q = map (\<lambda>t. (cache_id t, lock_count t)) (pq_drain (tasks q ! k))"

text \<open>What holds of the queue between operations once it is initialised.\<close>

definition queue_inv :: "'b queue \<Rightarrow> bool" where
  "queue_inv q \<longleftrightarrow>
     aligned q \<and> num_remaining_tasks q = pending q \<and> table_exchange q \<noteq> None"







text \<open>
  What the search for a subtree to split has found after the first \<open>n\<close> slots: nothing,
  and then no eligible slot among them holds a point, or the slot among them that holds
  the most points, the first of these.
\<close>

definition scan_inv :: "'b queue \<Rightarrow> nat \<Rightarrow> int \<times> int \<Rightarrow> bool" where
  "scan_inv q n st \<longleftrightarrow>
     (st = (0, - 1) \<and> (\<forall>j<n. eligible q j \<longrightarrow> count (local_query_subtrees q ! j) \<le> 0)) \<or>
     (\<exists>k<n. st = (count (local_query_subtrees q ! k), int k) \<and> eligible q k \<and>
        0 < count (local_query_subtrees q ! k) \<and>
        (\<forall>j<n. eligible q j \<longrightarrow> count (local_query_subtrees q ! j) \<le> count (local_query_subtrees q ! k)) \<and>
        (\<forall>j<k. eligible q j \<longrightarrow> count (local_query_subtrees q ! j) < count (local_query_subtrees q ! k)))"

section \<open>An example queue\<close>

text \<open>
  The setting of the spec's scenarios: points on a line, bounds that are intervals, and the
  squared distances between two intervals as the metric. The query tree holds eight
  points; with a size cap of four its frontier is the two children of the root. The
  reference table holds a leaf and an internal node.
\<close>

definition interval_metric :: "(real \<times> real) MetricType" where
  "interval_metric p r =
     \<lparr>lo = (max 0 (max (fst r - snd p) (fst p - snd r)))\<^sup>2,
      hi = (max (snd r - fst p) (snd p - fst r))\<^sup>2\<rparr>"

definition Q_LL :: "(real \<times> real) tree" where "Q_LL = Leaf (0, 2) 2"
definition Q_LR :: "(real \<times> real) tree" where "Q_LR = Leaf (2, 4) 2"
definition Q_L :: "(real \<times> real) tree" where "Q_L = Node (0, 4) 4 Q_LL Q_LR"
definition Q_R :: "(real \<times> real) tree" where "Q_R = Node (4, 8) 4 (Leaf (4, 6) 2) (Leaf (6, 8) 2)"
definition Q_root :: "(real \<times> real) tree" where "Q_root = Node (0, 8) 8 Q_L Q_R"

definition N_L :: "(real \<times> real) tree" where "N_L = Leaf (5, 6) 1"
definition N_R :: "(real \<times> real) tree" where "N_R = Leaf (6, 7) 1"
definition N_ref :: "(real \<times> real) tree" where "N_ref = Node (5, 7) 2 N_L N_R"
definition R1 :: "(real \<times> real) tree" where "R1 = Leaf (10, 11) 1"
definition ref_table :: "(real \<times> real) TableType" where
  "ref_table = Table (Node (5, 11) 3 N_ref R1)"

definition initial_queue :: "(real \<times> real) queue" where
  "initial_queue = Init (Table Q_root) 4 7 DistributedDualtreeTaskQueue"

text \<open>
  The queue after the leaf \<open>R1\<close> and the internal node \<open>N_ref\<close> have been pushed to slot 0,
  then with a split requested, and the queue after a locking dequeue from slot 0.
\<close>

definition task_R1 :: "(real \<times> real) TaskType" where
  "task_R1 = new_task interval_metric Q_L (ref_table, R1, 11)"

definition task_N :: "(real \<times> real) TaskType" where
  "task_N = new_task interval_metric Q_L (ref_table, N_ref, 12)"

definition pushed_queue :: "(real \<times> real) queue" where
  "pushed_queue = initial_queue\<lparr>tasks := [[task_R1, task_N], []], num_remaining_tasks := 2\<rparr>"

definition requested_queue :: "(real \<times> real) queue" where
  "requested_queue = set_split_subtree_flag pushed_queue"


definition held_queue :: "(real \<times> real) queue" where
  "held_queue =
     pushed_queue\<lparr>local_query_subtree_locks := [True, False], tasks := [[task_R1], []],
       num_remaining_tasks := 1\<rparr>"










section \<open>Facts about the priority queue\<close>

lemma foldl_best_in: "foldl (\<lambda>best u. if priority best < priority u then u else best) t pq \<in> set (t # pq)"
  by (induction pq arbitrary: t) auto

lemma pq_top_in: "pq \<noteq> [] \<Longrightarrow> pq_top pq \<in> set pq"
  using foldl_best_in by (cases pq) auto

lemma foldl_best_ge:
  "priority t \<le> priority (foldl (\<lambda>best u. if priority best < priority u then u else best) t pq)"
proof (induction pq arbitrary: t)
  case Nil
  show ?case by simp
next
  case (Cons u pq)
  show ?case
    using Cons [of u] Cons [of t] by auto
qed

lemma foldl_best_max:
  "u \<in> set pq \<Longrightarrow>
   priority u \<le> priority (foldl (\<lambda>best u. if priority best < priority u then u else best) t pq)"
proof (induction pq arbitrary: t)
  case Nil
  then show ?case by simp
next
  case (Cons v pq)
  show ?case
  proof (cases "u = v")
    case True
    then show ?thesis
      using foldl_best_ge [of v pq] foldl_best_ge [of t pq] by auto
  next
    case False
    with Cons.prems have "u \<in> set pq" by simp
    then show ?thesis using Cons.IH by simp
  qed
qed

lemma pq_top_max: "u \<in> set pq \<Longrightarrow> priority u \<le> priority (pq_top pq)"
  using foldl_best_ge foldl_best_max by (cases pq) auto

lemma length_pq_pop: "pq \<noteq> [] \<Longrightarrow> length (pq_pop pq) = length pq - 1"
proof -
  assume ne: "pq \<noteq> []"
  then have "pq_pop pq = remove1 (pq_top pq) pq"
    by (cases pq) (simp_all add: pq_pop_def del: pq_top.simps)
  with pq_top_in [OF ne] show ?thesis
    by (simp add: length_remove1)
qed

lemma pq_drain_Nil: "pq_drain [] = []"
  by (simp add: pq_drain_def)

lemma pq_drain_nonempty: "pq \<noteq> [] \<Longrightarrow> pq_drain pq = pq_top pq # pq_drain (pq_pop pq)"
  by (cases pq) (simp_all add: pq_drain_def length_pq_pop del: pq_top.simps)

section \<open>Draining and refilling a slot\<close>

lemma unlocked_update: "\<not> locks ! k \<Longrightarrow> locks[k := False] = locks"
  using list_update_id [of locks k] by simp

lemma drain_tasks_unlocked:
  "length (tasks q ! k) = n \<Longrightarrow> k < length (tasks q) \<Longrightarrow>
   k < length (local_query_subtree_locks q) \<Longrightarrow> \<not> local_query_subtree_locks q ! k \<Longrightarrow>
   drain_tasks (int k) q prev =
     Some (Inr (q\<lparr>tasks := (tasks q)[k := []],
                  num_remaining_tasks := num_remaining_tasks q - int n\<rparr>,
                prev @ map Some (pq_drain (tasks q ! k))))"
proof (induction n arbitrary: q prev)
  case 0
  then have "(tasks q)[k := []] = tasks q"
    using list_update_id [of "tasks q" k] by simp
  with 0 show ?case
    by (subst drain_tasks.simps) (simp add: in_range_def pq_size_def pq_drain_Nil)
next
  case (Suc n)
  let ?pq = "tasks q ! k"
  let ?q' = "q\<lparr>tasks := (tasks q)[k := pq_pop ?pq],
               local_query_subtree_locks := (local_query_subtree_locks q)[k := False],
               num_remaining_tasks := num_remaining_tasks q - 1\<rparr>"
  from Suc.prems have ne: "?pq \<noteq> []" by auto
  have deq: "DequeueTask (int k) (None, 0) False q = Inr (?q', (Some (pq_top ?pq), int k))"
    using Suc.prems by (simp add: DequeueTask_def in_range_def pq_size_def)
  have len: "length (tasks ?q' ! k) = n"
    using Suc.prems ne by (simp add: length_pq_pop)
  have ih: "drain_tasks (int k) ?q' (prev @ [Some (pq_top ?pq)]) =
     Some (Inr (?q'\<lparr>tasks := (tasks ?q')[k := []],
                  num_remaining_tasks := num_remaining_tasks ?q' - int n\<rparr>,
                (prev @ [Some (pq_top ?pq)]) @ map Some (pq_drain (tasks ?q' ! k))))"
    using Suc.prems by (intro Suc.IH [OF len]) simp_all
  have "drain_tasks (int k) q prev = drain_tasks (int k) ?q' (prev @ [Some (pq_top ?pq)])"
    using Suc.prems by (subst drain_tasks.simps) (simp add: in_range_def pq_size_def deq)
  also note ih
  finally show ?case
    using Suc.prems ne by (simp add: pq_drain_nonempty unlocked_update)
qed


lemma PushTask_slot:
  "k < length (local_query_subtrees q) \<Longrightarrow> k < length (tasks q) \<Longrightarrow>
   PushTask metric_in (int k) pair q =
     Inr (q\<lparr>tasks := (tasks q)[k := tasks q ! k @ [new_task metric_in (local_query_subtrees q ! k) pair]],
            num_remaining_tasks := num_remaining_tasks q + 1\<rparr>)"
  by (simp add: PushTask_def in_range_def pq_push_def)

lemma PushTask_last:
  assumes "length (local_query_subtrees q) = n" and "0 < n" and "length (tasks q) = n"
  shows "PushTask metric_in (int n - 1) pair q =
     Inr (q\<lparr>tasks := (tasks q)[n - 1 :=
                   tasks q ! (n - 1) @ [new_task metric_in (local_query_subtrees q ! (n - 1)) pair]],
            num_remaining_tasks := num_remaining_tasks q + 1\<rparr>)"
proof -
  have "int n - 1 = int (n - 1)"
    using assms(2) by (cases n) simp_all
  moreover have "n - 1 < length (local_query_subtrees q)" "n - 1 < length (tasks q)"
    using assms by simp_all
  ultimately show ?thesis
    by (simp only: PushTask_slot)
qed

lemma update_twice:
  "k \<noteq> j \<Longrightarrow> xs[k := a, j := b, k := c, j := d] = xs[k := c, j := d]"
  by (simp add: list_update_swap [of j k])

lemma split_task_Some:
  assumes "length (tasks q) = length (local_query_subtrees q)"
    and "Suc k < length (local_query_subtrees q)"
    and "table_exchange q = Some x"
  shows "split_task metric_in (int k) (Some t) q =
     Inr (q\<lparr>tasks := (tasks q)
                 [k := tasks q ! k @ replacement_tasks metric_in (local_query_subtrees q ! k) t,
                  length (local_query_subtrees q) - 1 :=
                    tasks q ! (length (local_query_subtrees q) - 1) @
                    replacement_tasks metric_in
                      (local_query_subtrees q ! (length (local_query_subtrees q) - 1)) t],
            num_remaining_tasks := num_remaining_tasks q + (lock_count t + 1)\<rparr>,
          (cache_id t, lock_count t))"
proof -
  let ?j = "length (local_query_subtrees q) - 1"
  have j: "0 < length (local_query_subtrees q)" "k < length (tasks q)"
    "k < length (local_query_subtrees q)" "k \<noteq> ?j"
    using assms by auto
  show ?thesis
  proof (cases "is_leaf (reference_start_node t)")
    case True
    then show ?thesis
      using assms j
      by (simp add: split_task_def bind_fault_def PushTask_slot PushTask_last LockCache_def
          replacement_tasks_def lock_count_def Let_def)
  next
    case False
    then show ?thesis
      using assms j
      by (simp add: split_task_def bind_fault_def PushTask_slot PushTask_last LockCache_def
          replacement_tasks_def lock_count_def Let_def list_update_swap [of k ?j])
  qed
qed


lemma redistribute_Some:
  assumes "length (tasks q) = length (local_query_subtrees q)"
    and "Suc k < length (local_query_subtrees q)"
    and "table_exchange q = Some x"
  shows "redistribute metric_in (int k) (map Some ts) q calls =
     Inr (q\<lparr>tasks := (tasks q)
                 [k := tasks q ! k @
                    concat (map (replacement_tasks metric_in (local_query_subtrees q ! k)) ts),
                  length (local_query_subtrees q) - 1 :=
                    tasks q ! (length (local_query_subtrees q) - 1) @
                    concat (map (replacement_tasks metric_in
                      (local_query_subtrees q ! (length (local_query_subtrees q) - 1))) ts)],
            num_remaining_tasks :=
              num_remaining_tasks q + (\<Sum>t\<leftarrow>ts. lock_count t + 1)\<rparr>,
          calls @ map (\<lambda>t. (cache_id t, lock_count t)) ts)"
  using assms
proof (induction ts arbitrary: q calls)
  case Nil
  then show ?case by simp
next
  case (Cons t ts)
  let ?j = "length (local_query_subtrees q) - 1"
  let ?q' = "q\<lparr>tasks := (tasks q)
                 [k := tasks q ! k @ replacement_tasks metric_in (local_query_subtrees q ! k) t,
                  ?j := tasks q ! ?j @
                    replacement_tasks metric_in (local_query_subtrees q ! ?j) t],
            num_remaining_tasks := num_remaining_tasks q + (lock_count t + 1)\<rparr>"
  have j: "k < length (tasks q)" "?j < length (tasks q)" "k \<noteq> ?j"
    using Cons.prems by auto
  have "redistribute metric_in (int k) (map Some (t # ts)) q calls =
        redistribute metric_in (int k) (map Some ts) ?q' (calls @ [(cache_id t, lock_count t)])"
    using Cons.prems by (simp add: split_task_Some)
  also have "\<dots> = Inr (?q'\<lparr>tasks := (tasks ?q')
                 [k := tasks ?q' ! k @
                    concat (map (replacement_tasks metric_in (local_query_subtrees ?q' ! k)) ts),
                  length (local_query_subtrees ?q') - 1 :=
                    tasks ?q' ! (length (local_query_subtrees ?q') - 1) @
                    concat (map (replacement_tasks metric_in
                      (local_query_subtrees ?q' ! (length (local_query_subtrees ?q') - 1))) ts)],
            num_remaining_tasks :=
              num_remaining_tasks ?q' + (\<Sum>t\<leftarrow>ts. lock_count t + 1)\<rparr>,
          (calls @ [(cache_id t, lock_count t)]) @ map (\<lambda>t. (cache_id t, lock_count t)) ts)"
    using Cons.prems by (intro Cons.IH) simp_all
  also have "\<dots> = Inr (q\<lparr>tasks := (tasks q)
                 [k := tasks q ! k @
                    concat (map (replacement_tasks metric_in (local_query_subtrees q ! k)) (t # ts)),
                  ?j := tasks q ! ?j @
                    concat (map (replacement_tasks metric_in (local_query_subtrees q ! ?j)) (t # ts))],
            num_remaining_tasks :=
              num_remaining_tasks q + (\<Sum>t\<leftarrow>t # ts. lock_count t + 1)\<rparr>,
          calls @ map (\<lambda>t. (cache_id t, lock_count t)) (t # ts))"
    using j by (simp add: update_twice)
  finally show ?case .
qed


lemma length_pq_drain_n: "length pq = n \<Longrightarrow> length (pq_drain_n n pq) = n"
proof (induction n arbitrary: pq)
  case 0
  then show ?case by simp
next
  case (Suc n)
  then have "pq \<noteq> []" by auto
  with Suc show ?case
    by (cases pq) (simp_all add: length_pq_pop del: pq_top.simps)
qed

lemma length_pq_drain: "length (pq_drain pq) = length pq"
  by (simp add: pq_drain_def length_pq_drain_n)

lemma sum_list_plus1: "(\<Sum>t\<leftarrow>ts. f t + 1) = (\<Sum>t\<leftarrow>ts. f t) + int (length ts)"
  by (induction ts) simp_all

lemma split_subtree_free:
  assumes "aligned q" and "k < length (local_query_subtrees q)"
    and "\<not> is_leaf (local_query_subtrees q ! k)"
    and "\<not> local_query_subtree_locks q ! k"
    and "table_exchange q = Some x"
  shows "split_subtree metric_in (int k) q =
     Some (Inr (split_state metric_in k q, split_calls k q))"
proof -
  let ?n = "length (local_query_subtrees q)"
  let ?L = "left (local_query_subtrees q ! k)"
  let ?R = "right (local_query_subtrees q ! k)"
  let ?D = "pq_drain (tasks q ! k)"
  let ?q1 = "q\<lparr>local_query_subtrees := (local_query_subtrees q)[k := ?L] @ [?R],
                local_query_subtree_locks := local_query_subtree_locks q @ [False]\<rparr>"
  let ?q3 = "?q1\<lparr>num_remaining_tasks := num_remaining_tasks q - int (length (tasks q ! k)),
                 tasks := (tasks q)[k := []] @ [[]]\<rparr>"
  have len: "length (local_query_subtree_locks q) = ?n" "length (tasks q) = ?n"
    using assms(1) by (simp_all add: aligned_def)
  have drain: "drain_tasks (int k) ?q1 [] =
      Some (Inr (?q1\<lparr>tasks := (tasks ?q1)[k := []],
                  num_remaining_tasks :=
                    num_remaining_tasks ?q1 - int (length (tasks q ! k))\<rparr>,
                [] @ map Some (pq_drain (tasks ?q1 ! k))))"
    using assms len by (intro drain_tasks_unlocked) (simp_all add: nth_append)
  have redis: "redistribute metric_in (int k) (map Some ?D) ?q3 [] =
     Inr (?q3\<lparr>tasks := (tasks ?q3)
                 [k := tasks ?q3 ! k @
                    concat (map (replacement_tasks metric_in (local_query_subtrees ?q3 ! k)) ?D),
                  length (local_query_subtrees ?q3) - 1 :=
                    tasks ?q3 ! (length (local_query_subtrees ?q3) - 1) @
                    concat (map (replacement_tasks metric_in
                      (local_query_subtrees ?q3 ! (length (local_query_subtrees ?q3) - 1))) ?D)],
            num_remaining_tasks :=
              num_remaining_tasks ?q3 + (\<Sum>t\<leftarrow>?D. lock_count t + 1)\<rparr>,
          [] @ map (\<lambda>t. (cache_id t, lock_count t)) ?D)"
    using assms len by (intro redistribute_Some [where x = x]) simp_all
  have "split_subtree metric_in (int k) q =
      Some (redistribute metric_in (int k) (map Some ?D) ?q3 [])"
    using assms len
    by (simp add: split_subtree_def in_range_def Let_def drain resize_def)
  also note redis
  finally show ?thesis
    using assms len
    by (simp add: nth_append list_update_append sum_list_plus1 length_pq_drain
        split_state_def split_calls_def)
qed


section \<open>The search for a slot to split\<close>

lemma scan_slots_append:
  "scan_slots q (xs @ ys) st =
     (case scan_slots q xs st of Inl e \<Rightarrow> Inl e | Inr st' \<Rightarrow> scan_slots q ys st')"
  by (induction xs arbitrary: st) (simp_all split: sum.splits)

lemma scan_slot_step:
  assumes "aligned q" and "n < length (local_query_subtrees q)" and "scan_inv q n st"
  shows "\<exists>st'. scan_slot q n st = Inr st' \<and> scan_inv q (Suc n) st'"
proof -
  have len: "n < length (local_query_subtree_locks q)" "n < length (tasks q)"
    using assms by (simp_all add: aligned_def)
  show ?thesis
  proof (cases "eligible q n \<and> fst st < count (local_query_subtrees q ! n)")
    case True
    then have step: "scan_slot q n st = Inr (count (local_query_subtrees q ! n), int n)"
      using len by (simp add: scan_slot_def eligible_def)
    have "scan_inv q (Suc n) (count (local_query_subtrees q ! n), int n)"
      using assms(3) True unfolding scan_inv_def
      by (intro disjI2 exI [of _ n]) (auto simp: less_Suc_eq)
    with step show ?thesis by simp
  next
    case False
    then have step: "scan_slot q n st = Inr st"
      using len assms(2) by (auto simp: scan_slot_def eligible_def)
    have "scan_inv q (Suc n) st"
      using assms(3) False unfolding scan_inv_def
      by (elim disjE exE conjE) (auto simp: less_Suc_eq)
    with step show ?thesis by simp
  qed
qed

lemma scan_slots_inv:
  "aligned q \<Longrightarrow> n \<le> length (local_query_subtrees q) \<Longrightarrow>
   \<exists>st. scan_slots q [0..<n] (0, - 1) = Inr st \<and> scan_inv q n st"
proof (induction n)
  case 0
  then show ?case by (simp add: scan_inv_def)
next
  case (Suc n)
  then obtain st where st: "scan_slots q [0..<n] (0, - 1) = Inr st" "scan_inv q n st"
    by auto
  from scan_slot_step [OF Suc.prems(1) _ st(2)] Suc.prems(2)
  obtain st' where "scan_slot q n st = Inr st'" "scan_inv q (Suc n) st'"
    by auto
  with st show ?case
    by (simp add: scan_slots_append)
qed

lemma aligned_released: "aligned (released i q) = aligned q"
  by (simp add: aligned_def released_def)

lemma scan_slots_result:
  assumes "aligned q"
  shows "(scan_slots q [0..<length (local_query_subtrees q)] (0, - 1) = Inr (0, - 1) \<and>
          (\<forall>j. eligible q j \<longrightarrow> count (local_query_subtrees q ! j) \<le> 0)) \<or>
         (\<exists>k. scan_slots q [0..<length (local_query_subtrees q)] (0, - 1) =
                Inr (count (local_query_subtrees q ! k), int k) \<and>
              chosen q k \<and> 0 < count (local_query_subtrees q ! k))"
proof -
  from scan_slots_inv [OF assms order_refl]
  obtain st where st: "scan_slots q [0..<length (local_query_subtrees q)] (0, - 1) = Inr st"
    "scan_inv q (length (local_query_subtrees q)) st"
    by auto
  have bound: "\<And>j. eligible q j \<Longrightarrow> j < length (local_query_subtrees q)"
    by (simp add: eligible_def)
  from st(2) show ?thesis
    unfolding scan_inv_def
  proof (elim disjE exE conjE)
    assume "st = (0, - 1)"
      and "\<forall>j<length (local_query_subtrees q).
             eligible q j \<longrightarrow> count (local_query_subtrees q ! j) \<le> 0"
    with st(1) bound show ?thesis by auto
  next
    fix k
    assume "st = (count (local_query_subtrees q ! k), int k)" and "eligible q k"
      and "0 < count (local_query_subtrees q ! k)"
      and "\<forall>j<length (local_query_subtrees q). eligible q j \<longrightarrow>
             count (local_query_subtrees q ! j) \<le> count (local_query_subtrees q ! k)"
      and "\<forall>j<k. eligible q j \<longrightarrow>
             count (local_query_subtrees q ! j) < count (local_query_subtrees q ! k)"
    with st(1) bound have "scan_slots q [0..<length (local_query_subtrees q)] (0, - 1) =
                Inr (count (local_query_subtrees q ! k), int k) \<and>
              chosen q k \<and> 0 < count (local_query_subtrees q ! k)"
      unfolding chosen_def list_all_iff by auto
    then show ?thesis by blast
  qed
qed

lemma chosen_greatest:
  "chosen q k \<Longrightarrow> eligible q j \<Longrightarrow>
   count (local_query_subtrees q ! j) \<le> count (local_query_subtrees q ! k)"
  by (simp add: chosen_def list_all_iff eligible_def)

lemma chosen_first:
  "chosen q k \<Longrightarrow> eligible q j \<Longrightarrow> j < k \<Longrightarrow>
   count (local_query_subtrees q ! j) < count (local_query_subtrees q ! k)"
  by (simp add: chosen_def list_all_iff)

lemma chosen_unique: "chosen q k \<Longrightarrow> chosen q k' \<Longrightarrow> k = k'"
proof (rule ccontr)
  assume c: "chosen q k" "chosen q k'" and ne: "k \<noteq> k'"
  from c have el: "eligible q k" "eligible q k'"
    by (simp_all add: chosen_def)
  from chosen_greatest [OF c(1) el(2)] chosen_greatest [OF c(2) el(1)]
  have eq: "count (local_query_subtrees q ! k) = count (local_query_subtrees q ! k')"
    by simp
  from ne consider "k < k'" | "k' < k" by linarith
  then show False
  proof cases
    case 1
    from chosen_first [OF c(2) el(1) 1] eq show False by simp
  next
    case 2
    from chosen_first [OF c(1) el(2) 2] eq show False by simp
  qed
qed

lemma Unlock_no_request:
  "i < length (local_query_subtree_locks q) \<Longrightarrow> \<not> split_subtree_after_unlocking q \<Longrightarrow>
   UnlockQuerySubtree metric_in (int i) q = Some (Inr (released i q, []))"
  by (simp add: UnlockQuerySubtree_def in_range_def released_def)

lemma Unlock_request:
  assumes "aligned q" and "i < length (local_query_subtree_locks q)"
    and "table_exchange q = Some x" and "split_subtree_after_unlocking q"
  shows "(UnlockQuerySubtree metric_in (int i) q =
            Some (Inr ((released i q)\<lparr>split_subtree_after_unlocking := False\<rparr>, [])) \<and>
          (\<forall>j. eligible (released i q) j \<longrightarrow> count (local_query_subtrees q ! j) \<le> 0)) \<or>
         (\<exists>k. chosen (released i q) k \<and> 0 < count (local_query_subtrees q ! k) \<and>
              UnlockQuerySubtree metric_in (int i) q =
                Some (Inr ((split_state metric_in k (released i q))
                             \<lparr>split_subtree_after_unlocking := False\<rparr>,
                           split_calls k (released i q))))"
proof -
  let ?q1 = "released i q"
  have al: "aligned ?q1"
    using assms(1) by (simp add: aligned_released)
  have q1: "local_query_subtrees ?q1 = local_query_subtrees q"
    "split_subtree_after_unlocking ?q1" "table_exchange ?q1 = Some x"
    using assms by (simp_all add: released_def)
  have unl: "UnlockQuerySubtree metric_in (int i) q =
     (case scan_slots ?q1 [0..<length (local_query_subtrees ?q1)] (0, - 1) of
        Inl e \<Rightarrow> Some (Inl e)
      | Inr (split_index_query_size, split_index) \<Rightarrow>
          if 0 \<le> split_index then
            (case split_subtree metric_in split_index ?q1 of
               None \<Rightarrow> None
             | Some (Inl e) \<Rightarrow> Some (Inl e)
             | Some (Inr (q2, calls)) \<Rightarrow>
                 Some (Inr (q2\<lparr>split_subtree_after_unlocking := False\<rparr>, calls)))
          else Some (Inr (?q1\<lparr>split_subtree_after_unlocking := False\<rparr>, [])))"
    unfolding UnlockQuerySubtree_def released_def Let_def nat_int
    using assms(2,4) by (simp add: in_range_def)
  from scan_slots_result [OF al] show ?thesis
  proof (elim disjE exE conjE)
    assume "scan_slots ?q1 [0..<length (local_query_subtrees ?q1)] (0, - 1) = Inr (0, - 1)"
      and "\<forall>j. eligible ?q1 j \<longrightarrow> count (local_query_subtrees ?q1 ! j) \<le> 0"
    then show ?thesis
      using q1 by (simp add: unl)
  next
    fix k
    assume scan: "scan_slots ?q1 [0..<length (local_query_subtrees ?q1)] (0, - 1) =
                Inr (count (local_query_subtrees ?q1 ! k), int k)"
      and ch: "chosen ?q1 k" and pos: "0 < count (local_query_subtrees ?q1 ! k)"
    from ch have el: "eligible ?q1 k" by (simp add: chosen_def)
    have "split_subtree metric_in (int k) ?q1 =
        Some (Inr (split_state metric_in k ?q1, split_calls k ?q1))"
      using al el q1(3) by (intro split_subtree_free [where x = x]) (simp_all add: eligible_def)
    with scan ch pos q1(1) show ?thesis
      by (intro disjI2 exI [of _ k]) (simp add: unl)
  qed
qed

section \<open>The invariants of an initialised queue\<close>


lemma sum_length_update:
  "k < length xs \<Longrightarrow>
   (\<Sum>p\<leftarrow>xs[k := y]. int (length p)) =
   (\<Sum>p\<leftarrow>xs. int (length p)) - int (length (xs ! k)) + int (length y)"
  by (induction xs arbitrary: k) (auto split: nat.split)


lemma length_replacements:
  "int (length (concat (map (replacement_tasks metric_in a) ts))) +
   int (length (concat (map (replacement_tasks metric_in b) ts))) =
   (\<Sum>t\<leftarrow>ts. lock_count t) + int (length ts)"
  by (induction ts) (simp_all add: replacement_tasks_def lock_count_def)

lemma pending_split_state:
  assumes "k < length (tasks q)"
  shows "pending (split_state metric_in k q) =
         pending q + (\<Sum>t\<leftarrow>pq_drain (tasks q ! k). lock_count t)"
proof -
  let ?D = "pq_drain (tasks q ! k)"
  let ?X = "concat (map (replacement_tasks metric_in (left (local_query_subtrees q ! k))) ?D)"
  let ?Y = "concat (map (replacement_tasks metric_in (right (local_query_subtrees q ! k))) ?D)"
  have "pending (split_state metric_in k q) =
        (\<Sum>p\<leftarrow>(tasks q)[k := ?X]. int (length p)) + int (length ?Y)"
    by (simp add: pending_def pq_size_def split_state_def)
  also have "\<dots> = pending q - int (length (tasks q ! k)) + (int (length ?X) + int (length ?Y))"
    using assms by (simp add: sum_length_update pending_def pq_size_def)
  also have "\<dots> = pending q + (\<Sum>t\<leftarrow>?D. lock_count t)"
    by (simp only: length_replacements) (simp add: length_pq_drain)
  finally show ?thesis .
qed

lemma queue_inv_split_state:
  assumes "queue_inv q" and "k < length (local_query_subtrees q)"
  shows "queue_inv (split_state metric_in k q)"
proof -
  from assms have k: "k < length (tasks q)"
    by (simp add: queue_inv_def aligned_def)
  have "aligned (split_state metric_in k q)"
    using assms(1) by (simp add: queue_inv_def aligned_def split_state_def)
  moreover have "num_remaining_tasks (split_state metric_in k q) =
      pending (split_state metric_in k q)"
    using assms(1) by (simp add: pending_split_state [OF k]) (simp add: split_state_def queue_inv_def)
  moreover have "table_exchange (split_state metric_in k q) \<noteq> None"
    using assms(1) by (simp add: queue_inv_def split_state_def)
  ultimately show ?thesis
    by (simp add: queue_inv_def)
qed

lemma queue_inv_released: "queue_inv q \<Longrightarrow> queue_inv (released i q)"
  by (simp add: queue_inv_def aligned_def released_def pending_def)

lemma queue_inv_flag:
  "queue_inv q \<Longrightarrow> queue_inv (q\<lparr>split_subtree_after_unlocking := b\<rparr>)"
  by (simp add: queue_inv_def aligned_def pending_def)

lemma fold_unlock_all:
  "n \<le> length locks \<Longrightarrow>
   fold (\<lambda>i l. l[i := False]) [0..<n] locks = replicate n False @ drop n locks"
proof (induction n)
  case 0
  then show ?case by simp
next
  case (Suc n)
  then have "(replicate n False @ drop n locks)[n := False] =
      replicate n False @ (drop n locks)[0 := False]"
    by (simp add: list_update_append)
  also have "(drop n locks)[0 := False] = False # drop (Suc n) locks"
    using Suc.prems Cons_nth_drop_Suc [of n locks, symmetric] by simp
  finally show ?case
    using Suc by (simp add: replicate_app_Cons_same)
qed

lemma Init_fields:
  "local_query_subtrees (Init tbl cap x q) = get_frontier_nodes tbl cap"
  "local_query_subtree_locks (Init tbl cap x q) =
     replicate (length (get_frontier_nodes tbl cap)) False"
  "tasks (Init tbl cap x q) = resize (length (get_frontier_nodes tbl cap)) [] (tasks q)"
  "split_subtree_after_unlocking (Init tbl cap x q) = False"
  "table_exchange (Init tbl cap x q) = Some x"
  "num_remaining_tasks (Init tbl cap x q) = num_remaining_tasks q"
  by (simp_all add: Init_def Let_def fold_unlock_all resize_def)

lemma queue_inv_Init: "queue_inv (Init tbl cap x DistributedDualtreeTaskQueue)"
  by (simp add: queue_inv_def aligned_def pending_def Init_fields resize_def pq_size_def
      DistributedDualtreeTaskQueue_def sum_list_replicate)




lemma Unlock_outcome:
  assumes "queue_inv q" and "i < length (local_query_subtree_locks q)"
  shows "\<exists>q' calls. UnlockQuerySubtree metric_in (int i) q = Some (Inr (q', calls)) \<and>
           queue_inv q' \<and>
           (length (local_query_subtrees q') = length (local_query_subtrees q) \<or>
            length (local_query_subtrees q') = Suc (length (local_query_subtrees q))) \<and>
           \<not> local_query_subtree_locks q' ! i \<and> \<not> split_subtree_after_unlocking q'"
proof (cases "split_subtree_after_unlocking q")
  case False
  with assms show ?thesis
    by (simp add: Unlock_no_request queue_inv_released) (simp add: released_def)
next
  case True
  from assms(1) obtain x where x: "table_exchange q = Some x" and al: "aligned q"
    by (auto simp: queue_inv_def)
  from Unlock_request [OF al assms(2) x True, of metric_in] show ?thesis
  proof (elim disjE exE conjE)
    assume "UnlockQuerySubtree metric_in (int i) q =
            Some (Inr ((released i q)\<lparr>split_subtree_after_unlocking := False\<rparr>, []))"
    with assms show ?thesis
      by (simp add: queue_inv_released queue_inv_flag) (simp add: released_def)
  next
    fix k
    assume ch: "chosen (released i q) k"
      and u: "UnlockQuerySubtree metric_in (int i) q =
                Some (Inr ((split_state metric_in k (released i q))
                             \<lparr>split_subtree_after_unlocking := False\<rparr>,
                           split_calls k (released i q)))"
    from ch have k: "k < length (local_query_subtrees (released i q))"
      by (simp add: chosen_def eligible_def)
    have "queue_inv ((split_state metric_in k (released i q))
                             \<lparr>split_subtree_after_unlocking := False\<rparr>)"
      using assms(1) k by (intro queue_inv_flag queue_inv_split_state queue_inv_released)
    with u assms(2) show ?thesis
      by (simp add: split_state_def released_def nth_append)
  qed
qed

section \<open>Dequeueing\<close>

text \<open>
  C3. For a slot index in range, \<^verbatim>\<open>DequeueTask\<close> on a slot that is empty or held changes
  nothing and writes nothing to the caller's pair: that is how it returns nothing, and a
  caller who hands in the empty pair \<open>(None, -1)\<close> finds it unchanged exactly in this case.
  Otherwise it takes the top of the slot's priority queue, a task of the slot that no
  task of the slot exceeds in priority, out of the queue, sets the lock of the slot to the
  flag it is given, counts the remaining tasks down by one, and writes the task with the
  slot index to the caller's pair.
\<close>

theorem DequeueTask_takes_top:
  assumes "k < length (tasks q)" and "k < length (local_query_subtree_locks q)"
  shows "(tasks q ! k = [] \<or> local_query_subtree_locks q ! k \<longrightarrow>
            DequeueTask (int k) task_out lock_in q = Inr (q, task_out)) \<and>
         (tasks q ! k \<noteq> [] \<and> \<not> local_query_subtree_locks q ! k \<longrightarrow>
            DequeueTask (int k) task_out lock_in q =
              Inr (q\<lparr>tasks := (tasks q)[k := pq_pop (tasks q ! k)],
                     local_query_subtree_locks := (local_query_subtree_locks q)[k := lock_in],
                     num_remaining_tasks := num_remaining_tasks q - 1\<rparr>,
                   (Some (pq_top (tasks q ! k)), int k)) \<and>
            pq_top (tasks q ! k) \<in> set (tasks q ! k) \<and>
            list_all (\<lambda>u. priority u \<le> priority (pq_top (tasks q ! k))) (tasks q ! k) \<and>
            pq_pop (tasks q ! k) = remove1 (pq_top (tasks q ! k)) (tasks q ! k)) \<and>
         (\<forall>q' out'. DequeueTask (int k) (None, - 1) lock_in q = Inr (q', out') \<longrightarrow>
            (out' = (None, - 1)) = (tasks q ! k = [] \<or> local_query_subtree_locks q ! k))"
proof (intro conjI impI allI)
  assume "tasks q ! k = [] \<or> local_query_subtree_locks q ! k"
  with assms show "DequeueTask (int k) task_out lock_in q = Inr (q, task_out)"
    by (auto simp: DequeueTask_def in_range_def pq_size_def)
next
  assume "tasks q ! k \<noteq> [] \<and> \<not> local_query_subtree_locks q ! k"
  with assms show "DequeueTask (int k) task_out lock_in q =
              Inr (q\<lparr>tasks := (tasks q)[k := pq_pop (tasks q ! k)],
                     local_query_subtree_locks := (local_query_subtree_locks q)[k := lock_in],
                     num_remaining_tasks := num_remaining_tasks q - 1\<rparr>,
                   (Some (pq_top (tasks q ! k)), int k))"
    by (simp add: DequeueTask_def in_range_def pq_size_def)
next
  assume "tasks q ! k \<noteq> [] \<and> \<not> local_query_subtree_locks q ! k"
  then show "pq_top (tasks q ! k) \<in> set (tasks q ! k)"
    by (simp add: pq_top_in)
next
  show "list_all (\<lambda>u. priority u \<le> priority (pq_top (tasks q ! k))) (tasks q ! k)"
    by (simp add: list_all_iff pq_top_max)
next
  assume "tasks q ! k \<noteq> [] \<and> \<not> local_query_subtree_locks q ! k"
  then show "pq_pop (tasks q ! k) = remove1 (pq_top (tasks q ! k)) (tasks q ! k)"
    by (cases "tasks q ! k") (simp_all add: pq_pop_def del: pq_top.simps)
next
  fix q' out'
  assume "DequeueTask (int k) (None, - 1) lock_in q = Inr (q', out')"
  with assms show "(out' = (None, - 1)) = (tasks q ! k = [] \<or> local_query_subtree_locks q ! k)"
    by (auto simp: DequeueTask_def in_range_def pq_size_def split: if_splits)
qed

theorem DequeueTask_takes_top_witness:
  "DequeueTask 0 (None, - 1) True pushed_queue = Inr (held_queue, (Some task_N, 0)) \<and>
   priority task_R1 \<le> priority task_N \<and>
   DequeueTask 0 (None, - 1) True held_queue = Inr (held_queue, (None, - 1)) \<and>
   DequeueTask 1 (None, - 1) True held_queue = Inr (held_queue, (None, - 1))"
proof -
  have len: "0 < length (tasks pushed_queue)" "0 < length (local_query_subtree_locks pushed_queue)"
    "0 < length (tasks held_queue)" "0 < length (local_query_subtree_locks held_queue)"
    "1 < length (tasks held_queue)" "1 < length (local_query_subtree_locks held_queue)"
    by code_simp+
  have full: "tasks pushed_queue ! 0 \<noteq> [] \<and> \<not> local_query_subtree_locks pushed_queue ! 0"
    by code_simp
  have held: "local_query_subtree_locks held_queue ! 0" and none: "tasks held_queue ! 1 = []"
    by code_simp+
  have ev: "pushed_queue\<lparr>tasks := (tasks pushed_queue)[0 := pq_pop (tasks pushed_queue ! 0)],
                     local_query_subtree_locks :=
                       (local_query_subtree_locks pushed_queue)[0 := True],
                     num_remaining_tasks := num_remaining_tasks pushed_queue - 1\<rparr> = held_queue"
    "pq_top (tasks pushed_queue ! 0) = task_N" "tasks pushed_queue ! 0 = [task_R1, task_N]"
    by code_simp+
  from DequeueTask_takes_top [OF len(1,2), of "(None, - 1)" True] full ev
  have "DequeueTask 0 (None, - 1) True pushed_queue = Inr (held_queue, (Some task_N, 0))"
    "priority task_R1 \<le> priority task_N"
    by simp_all
  moreover from DequeueTask_takes_top [OF len(3,4), of "(None, - 1)" True] held
  have "DequeueTask 0 (None, - 1) True held_queue = Inr (held_queue, (None, - 1))"
    by simp
  moreover from DequeueTask_takes_top [OF len(5,6), of "(None, - 1)" True] none
  have "DequeueTask 1 (None, - 1) True held_queue = Inr (held_queue, (None, - 1))"
    by simp
  ultimately show ?thesis by simp
qed

text \<open>
  C9. A \<^verbatim>\<open>DequeueTask\<close> on a slot in range that is empty or held returns the queue as it
  was, every member of it, and the caller's pair as it was: nothing is popped, no lock is
  written, the counter stays, and nothing is written through \<^verbatim>\<open>task_out\<close>.
\<close>

theorem DequeueTask_nothing_taken:
  assumes "k < length (tasks q)"
    and "tasks q ! k \<noteq> [] \<longrightarrow> k < length (local_query_subtree_locks q)"
    and "pq_size (tasks q ! k) = 0 \<or> local_query_subtree_locks q ! k"
  shows "DequeueTask (int k) task_out lock_query_subtree_in q = Inr (q, task_out)"
  using assms by (auto simp: DequeueTask_def in_range_def pq_size_def)

theorem DequeueTask_nothing_taken_witness:
  "DequeueTask 1 (Some task_R1, 5) True pushed_queue = Inr (pushed_queue, (Some task_R1, 5)) \<and>
   DequeueTask 0 (Some task_N, 7) False held_queue = Inr (held_queue, (Some task_N, 7))"
proof -
  have empty: "1 < length (tasks pushed_queue)"
    "tasks pushed_queue ! 1 \<noteq> [] \<longrightarrow> 1 < length (local_query_subtree_locks pushed_queue)"
    "pq_size (tasks pushed_queue ! 1) = 0 \<or> local_query_subtree_locks pushed_queue ! 1"
    by code_simp+
  have held: "0 < length (tasks held_queue)"
    "tasks held_queue ! 0 \<noteq> [] \<longrightarrow> 0 < length (local_query_subtree_locks held_queue)"
    "pq_size (tasks held_queue ! 0) = 0 \<or> local_query_subtree_locks held_queue ! 0"
    by code_simp+
  from DequeueTask_nothing_taken [OF empty, of "(Some task_R1, 5)" True]
    DequeueTask_nothing_taken [OF held, of "(Some task_N, 7)" False]
  show ?thesis by simp
qed

section \<open>Pushing\<close>

text \<open>
  C8. The task a \<^verbatim>\<open>PushTask\<close> makes is the one put into the slot's priority queue (here
  the last in insertion order), and its priority is the negated midpoint of the range of
  squared distances between the bound of the slot's query subtree and the bound of the
  reference node under the metric given. So of two pushes the one with the smaller
  midpoint makes the task of greater priority. The doubles of the source are real numbers
  in the model; negation is exact in both.
\<close>

theorem PushTask_priority:
  assumes "PushTask metric_in i (tbl, node, cid) q = Inr q1"
    and "PushTask metric_in' j (tbl', node', cid') q' = Inr q2"
  shows "tasks q1 ! nat i =
           pq_push (new_task metric_in (local_query_subtrees q ! nat i) (tbl, node, cid))
             (tasks q ! nat i) \<and>
         priority (new_task metric_in (local_query_subtrees q ! nat i) (tbl, node, cid)) =
           - mid (RangeDistanceSq (bound (local_query_subtrees q ! nat i)) metric_in (bound node)) \<and>
         priority (last (tasks q1 ! nat i)) =
           - mid (RangeDistanceSq (bound (local_query_subtrees q ! nat i)) metric_in (bound node)) \<and>
         (mid (RangeDistanceSq (bound (local_query_subtrees q ! nat i)) metric_in (bound node)) <
          mid (RangeDistanceSq (bound (local_query_subtrees q' ! nat j)) metric_in' (bound node')) \<longrightarrow>
          priority (last (tasks q2 ! nat j)) < priority (last (tasks q1 ! nat i)))"
proof -
  from assms(1) have i: "nat i < length (tasks q)"
    and q1: "q1 = q\<lparr>tasks := (tasks q)[nat i :=
                     pq_push (new_task metric_in (local_query_subtrees q ! nat i) (tbl, node, cid))
                       (tasks q ! nat i)],
                  num_remaining_tasks := num_remaining_tasks q + 1\<rparr>"
    by (auto simp: PushTask_def in_range_def nat_less_iff split: if_splits)
  from assms(2) have j: "nat j < length (tasks q')"
    and q2: "q2 = q'\<lparr>tasks := (tasks q')[nat j :=
                     pq_push (new_task metric_in' (local_query_subtrees q' ! nat j) (tbl', node', cid'))
                       (tasks q' ! nat j)],
                  num_remaining_tasks := num_remaining_tasks q' + 1\<rparr>"
    by (auto simp: PushTask_def in_range_def nat_less_iff split: if_splits)
  show ?thesis
    using i j by (simp add: q1 q2 pq_push_def new_task_def)
qed

theorem PushTask_priority_witness:
  "PushTask interval_metric 0 (ref_table, N_ref, 12) initial_queue =
     Inr (initial_queue\<lparr>tasks := [[task_N], []], num_remaining_tasks := 1\<rparr>) \<and>
   PushTask interval_metric 0 (ref_table, R1, 11) initial_queue =
     Inr (initial_queue\<lparr>tasks := [[task_R1], []], num_remaining_tasks := 1\<rparr>) \<and>
   priority task_N = - 25 \<and> priority task_R1 = - (157 / 2) \<and>
   priority task_R1 < priority task_N"
proof -
  have a: "PushTask interval_metric 0 (ref_table, N_ref, 12) initial_queue =
     Inr (initial_queue\<lparr>tasks := [[task_N], []], num_remaining_tasks := 1\<rparr>)"
    and b: "PushTask interval_metric 0 (ref_table, R1, 11) initial_queue =
     Inr (initial_queue\<lparr>tasks := [[task_R1], []], num_remaining_tasks := 1\<rparr>)"
    by code_simp+
  have m: "mid (RangeDistanceSq (bound (local_query_subtrees initial_queue ! nat 0))
             interval_metric (bound N_ref)) = 25"
    "mid (RangeDistanceSq (bound (local_query_subtrees initial_queue ! nat 0))
             interval_metric (bound R1)) = 157 / 2"
    by code_simp+
  from PushTask_priority [OF a b] m
  have "priority task_N = - 25" "priority task_R1 < priority task_N"
    by simp_all
  moreover from PushTask_priority [OF b a] m
  have "priority task_R1 = - (157 / 2)"
    by simp
  ultimately show ?thesis
    using a b by simp
qed

section \<open>Splitting\<close>

lemma count_list_remove1:
  "x \<in> set xs \<Longrightarrow> count_list xs t = count_list (remove1 x xs) t + (if x = t then 1 else 0)"
  by (induction xs) auto

lemma count_list_pq_drain_n:
  "length pq = n \<Longrightarrow> count_list (pq_drain_n n pq) t = count_list pq t"
proof (induction n arbitrary: pq)
  case 0
  then show ?case by simp
next
  case (Suc n)
  then have ne: "pq \<noteq> []" by auto
  then have pop: "pq_pop pq = remove1 (pq_top pq) pq"
    by (cases pq) (simp_all add: pq_pop_def del: pq_top.simps)
  from Suc.prems ne have "length (pq_pop pq) = n"
    by (simp add: length_pq_pop)
  from Suc.IH [OF this]
  have ih: "count_list (pq_drain_n n (pq_pop pq)) t = count_list (remove1 (pq_top pq) pq) t"
    by (simp only: pop)
  have unfold: "pq_drain_n (Suc n) pq = pq_top pq # pq_drain_n n (pq_pop pq)"
    using ne by (cases pq) (simp_all del: pq_top.simps)
  have "count_list (pq_drain_n (Suc n) pq) t =
        count_list (remove1 (pq_top pq) pq) t + (if pq_top pq = t then 1 else 0)"
    unfolding unfold by (simp add: ih)
  also have "\<dots> = count_list pq t"
    by (rule count_list_remove1 [OF pq_top_in [OF ne], symmetric])
  finally show ?case .
qed

lemma count_list_pq_drain: "count_list (pq_drain pq) t = count_list pq t"
  by (simp add: pq_drain_def count_list_pq_drain_n)

text \<open>
  C5. A split of a free slot \<open>k\<close> that holds an internal query subtree, in a queue whose
  arrays are aligned and whose exchange is set, returns: the slot holds the left child
  and the right child is appended, at the index that was the length of the registry, with
  a free lock. The tasks that were pending in the slot are all taken out (as often as
  they were there). Each is replaced in slot \<open>k\<close> by tasks for the left child and in the
  new slot, which holds nothing else, by tasks for the right child: one task on the same
  reference node when that is a leaf, one task on each of its two children otherwise,
  with priorities computed from the bound of the new query node.
\<close>

theorem split_subtree_result:
  assumes "aligned q" and "k < length (local_query_subtrees q)"
    and "\<not> is_leaf (local_query_subtrees q ! k)"
    and "\<not> local_query_subtree_locks q ! k"
    and "table_exchange q = Some x"
  shows "\<exists>q' calls.
     split_subtree metric_in (int k) q = Some (Inr (q', calls)) \<and>
     local_query_subtrees q' =
       (local_query_subtrees q)[k := left (local_query_subtrees q ! k)] @
       [right (local_query_subtrees q ! k)] \<and>
     local_query_subtrees q' ! k = left (local_query_subtrees q ! k) \<and>
     local_query_subtrees q' ! length (local_query_subtrees q) =
       right (local_query_subtrees q ! k) \<and>
     local_query_subtree_locks q' = local_query_subtree_locks q @ [False] \<and>
     local_query_subtree_locks q' ! length (local_query_subtrees q) = False \<and>
     tasks q' =
       (tasks q)[k := concat (map (replacement_tasks metric_in
                    (left (local_query_subtrees q ! k))) (pq_drain (tasks q ! k)))] @
       [concat (map (replacement_tasks metric_in
          (right (local_query_subtrees q ! k))) (pq_drain (tasks q ! k)))] \<and>
     (\<forall>t. count_list (pq_drain (tasks q ! k)) t = count_list (tasks q ! k) t) \<and>
     (\<forall>n t. replacement_tasks metric_in n t =
        (if is_leaf (reference_start_node t) then
           [\<lparr>query_start_node = n, reference_table = reference_table t,
             reference_start_node = reference_start_node t, cache_id = cache_id t,
             priority = - mid (RangeDistanceSq (bound n) metric_in
                                 (bound (reference_start_node t)))\<rparr>]
         else
           [\<lparr>query_start_node = n, reference_table = reference_table t,
             reference_start_node = left (reference_start_node t), cache_id = cache_id t,
             priority = - mid (RangeDistanceSq (bound n) metric_in
                                 (bound (left (reference_start_node t))))\<rparr>,
            \<lparr>query_start_node = n, reference_table = reference_table t,
             reference_start_node = right (reference_start_node t), cache_id = cache_id t,
             priority = - mid (RangeDistanceSq (bound n) metric_in
                                 (bound (right (reference_start_node t))))\<rparr>]))"
proof -
  have len: "length (local_query_subtree_locks q) = length (local_query_subtrees q)"
    using assms(1) by (simp add: aligned_def)
  have "split_subtree metric_in (int k) q =
      Some (Inr (split_state metric_in k q, split_calls k q))"
    using assms by (rule split_subtree_free)
  moreover have "local_query_subtrees (split_state metric_in k q) ! k =
      left (local_query_subtrees q ! k)"
    "local_query_subtrees (split_state metric_in k q) ! length (local_query_subtrees q) =
      right (local_query_subtrees q ! k)"
    "local_query_subtree_locks (split_state metric_in k q) ! length (local_query_subtrees q) = False"
    using assms(2) len by (simp_all add: split_state_def nth_append)
  ultimately show ?thesis
    by (intro exI [of _ "split_state metric_in k q"] exI [of _ "split_calls k q"])
      (simp add: count_list_pq_drain, simp add: split_state_def replacement_tasks_def new_task_def)
qed

theorem split_subtree_result_witness:
  "\<exists>q' calls.
     split_subtree interval_metric 0 pushed_queue = Some (Inr (q', calls)) \<and>
     local_query_subtrees q' = [Q_LL, Q_R, Q_LR] \<and>
     local_query_subtree_locks q' = [False, False, False] \<and>
     map (map (\<lambda>t. (query_start_node t, reference_start_node t, priority t))) (tasks q') =
       [[(Q_LL, N_L, - (45 / 2)), (Q_LL, N_R, - (65 / 2)), (Q_LL, R1, - (185 / 2))], [],
        [(Q_LR, N_L, - (17 / 2)), (Q_LR, N_R, - (29 / 2)), (Q_LR, R1,  - (117 / 2))]]"
proof -
  have pre: "aligned pushed_queue" "0 < length (local_query_subtrees pushed_queue)"
    "\<not> is_leaf (local_query_subtrees pushed_queue ! 0)"
    "\<not> local_query_subtree_locks pushed_queue ! 0"
    "table_exchange pushed_queue = Some 7"
    by code_simp+
  have ev: "(local_query_subtrees pushed_queue)[0 := left (local_query_subtrees pushed_queue ! 0)] @
       [right (local_query_subtrees pushed_queue ! 0)] = [Q_LL, Q_R, Q_LR]"
    "local_query_subtree_locks pushed_queue @ [False] = [False, False, False]"
    "map (map (\<lambda>t. (query_start_node t, reference_start_node t, priority t)))
       ((tasks pushed_queue)[0 := concat (map (replacement_tasks interval_metric
                    (left (local_query_subtrees pushed_queue ! 0))) (pq_drain (tasks pushed_queue ! 0)))] @
       [concat (map (replacement_tasks interval_metric
          (right (local_query_subtrees pushed_queue ! 0))) (pq_drain (tasks pushed_queue ! 0)))]) =
       [[(Q_LL, N_L, - (45 / 2)), (Q_LL, N_R, - (65 / 2)), (Q_LL, R1, - (185 / 2))], [],
        [(Q_LR, N_L, - (17 / 2)), (Q_LR, N_R, - (29 / 2)), (Q_LR, R1,  - (117 / 2))]]"
    by code_simp+
  from split_subtree_result [OF pre, of interval_metric]
  obtain q' calls where
    "split_subtree interval_metric (int 0) pushed_queue = Some (Inr (q', calls))"
    "local_query_subtrees q' =
       (local_query_subtrees pushed_queue)[0 := left (local_query_subtrees pushed_queue ! 0)] @
       [right (local_query_subtrees pushed_queue ! 0)]"
    "local_query_subtree_locks q' = local_query_subtree_locks pushed_queue @ [False]"
    "tasks q' =
       (tasks pushed_queue)[0 := concat (map (replacement_tasks interval_metric
                    (left (local_query_subtrees pushed_queue ! 0))) (pq_drain (tasks pushed_queue ! 0)))] @
       [concat (map (replacement_tasks interval_metric
          (right (local_query_subtrees pushed_queue ! 0))) (pq_drain (tasks pushed_queue ! 0)))]"
    by blast
  with ev show ?thesis
    by (intro exI [of _ q'] exI [of _ calls]) simp
qed

section \<open>The cache\<close>

text \<open>
  C2. A split of a free internal slot makes one \<^verbatim>\<open>LockCache\<close> call for each task it takes
  out, in that order: with the task's cache id and the count 1 when the task's reference
  node is a leaf, and the count 3 when it is internal. Pushing, dequeueing and requesting
  a split make no call; an unlock makes calls only when a split was requested, and then
  they are the calls of the one split it runs. \<^verbatim>\<open>Init\<close> only stores the pointer to the
  exchange: its model returns the queue alone.
\<close>

theorem LockCache_only_in_split:
  "(aligned s \<and> k < length (local_query_subtrees s) \<and>
    \<not> is_leaf (local_query_subtrees s ! k) \<and> \<not> local_query_subtree_locks s ! k \<and>
    table_exchange s = Some y \<longrightarrow>
      (\<exists>s'. split_subtree metric_in (int k) s =
         Some (Inr (s', map (\<lambda>t. (cache_id t, if is_leaf (reference_start_node t) then 1 else 3))
                          (pq_drain (tasks s ! k)))))) \<and>
   (exec (Push metric_in i pair) q = Some (Inr (q', calls)) \<longrightarrow> calls = []) \<and>
   (exec (Dequeue i task_out lock_in) q = Some (Inr (q', calls)) \<longrightarrow> calls = []) \<and>
   (exec RequestSplit q = Some (Inr (q', calls)) \<longrightarrow> calls = []) \<and>
   (exec (Unlock metric_in i) q = Some (Inr (q', calls)) \<longrightarrow>
      calls = [] \<or>
      (split_subtree_after_unlocking q \<and>
       (\<exists>j s'. split_subtree metric_in j (released (nat i) q) = Some (Inr (s', calls)))))"
proof (intro conjI impI)
  assume "aligned s \<and> k < length (local_query_subtrees s) \<and>
    \<not> is_leaf (local_query_subtrees s ! k) \<and> \<not> local_query_subtree_locks s ! k \<and>
    table_exchange s = Some y"
  then have "split_subtree metric_in (int k) s =
      Some (Inr (split_state metric_in k s, split_calls k s))"
    by (intro split_subtree_free [where x = y]) simp_all
  then show "\<exists>s'. split_subtree metric_in (int k) s =
         Some (Inr (s', map (\<lambda>t. (cache_id t, if is_leaf (reference_start_node t) then 1 else 3))
                          (pq_drain (tasks s ! k))))"
    by (simp add: split_calls_def lock_count_def [abs_def])
next
  assume "exec (Push metric_in i pair) q = Some (Inr (q', calls))"
  then show "calls = []"
    by (auto split: sum.splits)
next
  assume "exec (Dequeue i task_out lock_in) q = Some (Inr (q', calls))"
  then show "calls = []"
    by (auto split: sum.splits)
next
  assume "exec RequestSplit q = Some (Inr (q', calls))"
  then show "calls = []"
    by simp
next
  assume "exec (Unlock metric_in i) q = Some (Inr (q', calls))"
  then show "calls = [] \<or>
      (split_subtree_after_unlocking q \<and>
       (\<exists>j s'. split_subtree metric_in j (released (nat i) q) = Some (Inr (s', calls))))"
    unfolding exec.simps UnlockQuerySubtree_def released_def Let_def
    by (auto split: if_splits sum.splits option.splits prod.splits)
qed

theorem LockCache_only_in_split_witness:
  "(\<exists>s'. split_subtree interval_metric 0 pushed_queue = Some (Inr (s', [(12, 3), (11, 1)]))) \<and>
   (\<exists>q'. exec (Push interval_metric 0 (ref_table, R1, 11)) initial_queue = Some (Inr (q', []))) \<and>
   (\<exists>q'. exec (Dequeue 0 (None, - 1) True) pushed_queue = Some (Inr (q', []))) \<and>
   (\<exists>q'. exec RequestSplit pushed_queue = Some (Inr (q', []))) \<and>
   (\<exists>q'. exec (Unlock interval_metric 1) requested_queue = Some (Inr (q', [(12, 3), (11, 1)]))) \<and>
   (\<exists>j s'. split_subtree interval_metric j (released 1 requested_queue) =
      Some (Inr (s', [(12, 3), (11, 1)])))"
proof -
  have pre: "aligned pushed_queue \<and> 0 < length (local_query_subtrees pushed_queue) \<and>
    \<not> is_leaf (local_query_subtrees pushed_queue ! 0) \<and>
    \<not> local_query_subtree_locks pushed_queue ! 0 \<and> table_exchange pushed_queue = Some 7"
    by code_simp
  have ev: "map (\<lambda>t. (cache_id t, if is_leaf (reference_start_node t) then 1 else (3 :: int)))
              (pq_drain (tasks pushed_queue ! 0)) = [(12, 3), (11, 1)]"
    by code_simp
  have "case exec (Push interval_metric 0 (ref_table, R1, 11)) initial_queue of
          Some (Inr (q', calls)) \<Rightarrow> True | _ \<Rightarrow> False"
    by code_simp
  then obtain q1 c1 where
    e1: "exec (Push interval_metric 0 (ref_table, R1, 11)) initial_queue = Some (Inr (q1, c1))"
    by (auto split: option.splits sum.splits)
  have "case exec (Dequeue 0 (None, - 1) True) pushed_queue of
          Some (Inr (q', calls)) \<Rightarrow> True | _ \<Rightarrow> False"
    by code_simp
  then obtain q2 c2 where
    e2: "exec (Dequeue 0 (None, - 1) True) pushed_queue = Some (Inr (q2, c2))"
    by (auto split: option.splits sum.splits)
  have "case exec RequestSplit pushed_queue of
          Some (Inr (q', calls)) \<Rightarrow> True | _ \<Rightarrow> False"
    by code_simp
  then obtain q3 c3 where
    e3: "exec RequestSplit pushed_queue = Some (Inr (q3, c3))"
    by (auto split: option.splits sum.splits)
  have "case exec (Unlock interval_metric 1) requested_queue of
          Some (Inr (q', calls)) \<Rightarrow> calls = [(12, 3), (11, 1)] | _ \<Rightarrow> False"
    by code_simp
  then obtain q4 where
    e4: "exec (Unlock interval_metric 1) requested_queue = Some (Inr (q4, [(12, 3), (11, 1)]))"
    by (auto split: option.splits sum.splits)
  note inst = LockCache_only_in_split
  from inst [of pushed_queue 0 7 interval_metric] pre ev
  have "\<exists>s'. split_subtree interval_metric 0 pushed_queue = Some (Inr (s', [(12, 3), (11, 1)]))"
    by simp
  moreover from inst [of _ _ _ interval_metric 0 "(ref_table, R1, 11)" initial_queue q1 c1] e1
  have "\<exists>q'. exec (Push interval_metric 0 (ref_table, R1, 11)) initial_queue = Some (Inr (q', []))"
    by blast
  moreover from inst [of _ _ _ _ 0 _ pushed_queue q2 c2 "(None, - 1)" True] e2
  have "\<exists>q'. exec (Dequeue 0 (None, - 1) True) pushed_queue = Some (Inr (q', []))"
    by blast
  moreover from inst [of _ _ _ _ _ _ pushed_queue q3 c3] e3
  have "\<exists>q'. exec RequestSplit pushed_queue = Some (Inr (q', []))"
    by blast
  moreover from inst [of _ _ _ interval_metric 1 _ requested_queue q4 "[(12, 3), (11, 1)]"] e4
  have "\<exists>j s'. split_subtree interval_metric j (released 1 requested_queue) =
      Some (Inr (s', [(12, 3), (11, 1)]))"
    by simp
  ultimately show ?thesis
    using e4 by blast
qed

section \<open>Unlocking\<close>

text \<open>
  C10. An unlock of a slot whose lock is already free, on a queue that satisfies the
  invariants of an initialised queue, neither faults nor diverges. Its result is that of
  the unlock of the same slot held: the lock is free afterwards, the search for a slot to
  split runs as it would, the request flag is clear afterwards, and the invariants hold
  of the queue returned.
\<close>

theorem Unlock_of_free_slot:
  assumes "queue_inv q" and "i < length (local_query_subtree_locks q)"
    and "\<not> local_query_subtree_locks q ! i"
  shows "UnlockQuerySubtree metric_in (int i) q =
           UnlockQuerySubtree metric_in (int i)
             (q\<lparr>local_query_subtree_locks := (local_query_subtree_locks q)[i := True]\<rparr>) \<and>
         (\<exists>q' calls.
            UnlockQuerySubtree metric_in (int i) q = Some (Inr (q', calls)) \<and>
            queue_inv q' \<and> \<not> local_query_subtree_locks q' ! i \<and>
            \<not> split_subtree_after_unlocking q')"
proof
  let ?held = "q\<lparr>local_query_subtree_locks := (local_query_subtree_locks q)[i := True]\<rparr>"
  have same: "?held\<lparr>local_query_subtree_locks :=
                 (local_query_subtree_locks ?held)[nat (int i) := False]\<rparr> =
              q\<lparr>local_query_subtree_locks :=
                 (local_query_subtree_locks q)[nat (int i) := False]\<rparr>"
    by simp
  have range: "in_range (int i) (local_query_subtree_locks ?held) =
               in_range (int i) (local_query_subtree_locks q)"
    by (simp add: in_range_def)
  show "UnlockQuerySubtree metric_in (int i) q = UnlockQuerySubtree metric_in (int i) ?held"
    unfolding UnlockQuerySubtree_def same range ..
next
  from Unlock_outcome [OF assms(1,2), of metric_in]
  show "\<exists>q' calls.
            UnlockQuerySubtree metric_in (int i) q = Some (Inr (q', calls)) \<and>
            queue_inv q' \<and> \<not> local_query_subtree_locks q' ! i \<and>
            \<not> split_subtree_after_unlocking q'"
    by blast
qed

theorem Unlock_of_free_slot_witness:
  "UnlockQuerySubtree interval_metric 1 requested_queue =
     UnlockQuerySubtree interval_metric 1
       (requested_queue\<lparr>local_query_subtree_locks := [False, True]\<rparr>) \<and>
   (\<exists>q' calls.
      UnlockQuerySubtree interval_metric 1 requested_queue = Some (Inr (q', calls)) \<and>
      queue_inv q' \<and> \<not> local_query_subtree_locks q' ! 1 \<and>
      \<not> split_subtree_after_unlocking q')"
proof -
  have pre: "queue_inv requested_queue" "1 < length (local_query_subtree_locks requested_queue)"
    "\<not> local_query_subtree_locks requested_queue ! 1"
    by code_simp+
  have ev: "(local_query_subtree_locks requested_queue)[1 := True] = [False, True]"
    by code_simp
  note inst = Unlock_of_free_slot [OF pre, of interval_metric, unfolded of_nat_1 ev]
  from inst show ?thesis .
qed

section \<open>Sequences of operations from the constructor on\<close>













section \<open>The counter\<close>





section \<open>The registry\<close>




section \<open>Unlocking with a split requested\<close>







section \<open>Initialisation\<close>

text \<open>
  C6, as the code has it. Whatever the queue was before, after \<^verbatim>\<open>Init\<close> the registry
  holds the frontier subtrees the query table gives for the size cap, every lock is free,
  no split is requested and the pointer to the exchange is kept. \<^verbatim>\<open>Init\<close> does not write
  the counter of remaining tasks, which is what it was, and it resizes the array of
  priority queues without emptying them: the first priority queues, as many as there are
  frontier subtrees, are the ones that were there with their tasks, and any further ones
  are new and empty. After \<^verbatim>\<open>Init\<close> on a queue fresh from the constructor the counter is
  0 and every priority queue is empty.
\<close>

theorem Init_result:
  "local_query_subtrees (Init tbl cap x q) = get_frontier_nodes tbl cap \<and>
   local_query_subtree_locks (Init tbl cap x q) =
     replicate (length (get_frontier_nodes tbl cap)) False \<and>
   tasks (Init tbl cap x q) =
     take (length (get_frontier_nodes tbl cap)) (tasks q) @
     replicate (length (get_frontier_nodes tbl cap) - length (tasks q)) [] \<and>
   length (tasks (Init tbl cap x q)) = length (get_frontier_nodes tbl cap) \<and>
   split_subtree_after_unlocking (Init tbl cap x q) = False \<and>
   table_exchange (Init tbl cap x q) = Some x \<and>
   num_remaining_tasks (Init tbl cap x q) = num_remaining_tasks q \<and>
   num_remaining_tasks (Init tbl cap x DistributedDualtreeTaskQueue) = 0 \<and>
   tasks (Init tbl cap x DistributedDualtreeTaskQueue) =
     replicate (length (get_frontier_nodes tbl cap)) []"
  by (simp add: Init_fields resize_def DistributedDualtreeTaskQueue_def)

text \<open>
  The claim as stated fails: with two tasks pushed after a first \<^verbatim>\<open>Init\<close>, a second
  \<^verbatim>\<open>Init\<close> leaves the counter at 2 and the two tasks in slot 0.
\<close>

theorem Init_keeps_counter_counterexample:
  "run [Push interval_metric 0 (ref_table, R1, 11), Push interval_metric 0 (ref_table, N_ref, 12)]
     (Init (Table Q_root) 4 7 DistributedDualtreeTaskQueue) = Some (Inr (pushed_queue, [])) \<and>
   num_remaining_tasks (Init (Table Q_root) 4 7 pushed_queue) = 2 \<and>
   num_remaining_tasks (Init (Table Q_root) 4 7 pushed_queue) \<noteq> 0 \<and>
   tasks (Init (Table Q_root) 4 7 pushed_queue) = [[task_R1, task_N], []]"
  by code_simp

end
